theory Spec2Isabelle
  imports Main "HOL-Library.Sublist"
begin

section \<open>JavaScript \<open>Map\<close> as an insertion-ordered association list\<close>

text \<open>
  A JavaScript \<open>Map\<close> keeps its entries in insertion order and iterates in that order.
  \<open>Map.prototype.set\<close> on a key that is already present replaces the value and leaves the
  entry where it is; on a new key it appends the entry. \<open>Map.prototype.delete\<close> removes
  the entry of the key. Keys are compared by value (the keys used by the store are
  strings and integral timestamps).
\<close>

fun Map_get :: "'k \<Rightarrow> ('k \<times> 'a) list \<Rightarrow> 'a option" where
  "Map_get k [] = None"
| "Map_get k ((k', v) # m) = (if k' = k then Some v else Map_get k m)"

fun Map_set :: "'k \<Rightarrow> 'a \<Rightarrow> ('k \<times> 'a) list \<Rightarrow> ('k \<times> 'a) list" where
  "Map_set k v [] = [(k, v)]"
| "Map_set k v ((k', v') # m) = (if k' = k then (k, v) # m else (k', v') # Map_set k v m)"

fun Map_delete :: "'k \<Rightarrow> ('k \<times> 'a) list \<Rightarrow> ('k \<times> 'a) list" where
  "Map_delete k [] = []"
| "Map_delete k ((k', v) # m) = (if k' = k then Map_delete k m else (k', v) # Map_delete k m)"

text \<open>Every \<open>Map\<close> has each key once; the operations above keep it so.\<close>

definition Map_wf :: "('k \<times> 'a) list \<Rightarrow> bool" where
  "Map_wf m = distinct (map fst m)"

section \<open>Session payloads\<close>

text \<open>
  A session payload is a plain object: its own enumerable properties, in enumeration
  order, each key once. The spread \<open>{...session}\<close> of \<open>MemoryStore.set\<close> makes a new
  object and defines on it the properties of \<open>session\<close> one after the other.
\<close>

type_synonym 'v payload = "(string \<times> 'v) list"

definition spread :: "'v payload \<Rightarrow> 'v payload" where
  "spread session = fold (\<lambda>(k, v) obj. Map_set k v obj) session []"

section \<open>The memory store (\<open>src/storages/memoryStore.js\<close>)\<close>

text \<open>
  Timestamps (\<open>Date.now()\<close>, milliseconds) and durations are integers. Each operation
  takes the reading of the clock as its first argument \<open>now\<close>; an operation runs to
  the end without yielding, and where it reads the clock once per record (\<open>all\<close>,
  \<open>rebuildIndex\<close>) all its readings are this one. The callbacks are the
  returned values: \<open>callback()\<close> is \<open>Absent\<close>, \<open>callback(null, x)\<close> is \<open>Found x\<close> and
  \<open>callback(new Error(msg))\<close> is \<open>Failed msg\<close>.
\<close>

datatype 'a result = Absent | Found 'a | Failed string

record 'v sessionData =
  data :: "'v payload"
  expires :: int

record 'v MemoryStore =
  sessions :: "(string \<times> 'v sessionData) list"
  expirationIndex :: "(int \<times> string) list"
  maxAge :: int
  cleanupInterval :: int
  indexInterval :: int
  cleanupIntervalId :: "nat option"
  indexRebuildIntervalId :: "nat option"

record MemoryStore_options =
  opt_maxAge :: "int option"
  opt_cleanupInterval :: "int option"
  opt_indexInterval :: "int option"

text \<open>\<open>x || d\<close> on an optional number: \<open>undefined\<close> and \<open>0\<close> are falsy.\<close>

definition or_default :: "int option \<Rightarrow> int \<Rightarrow> int" where
  "or_default x d = (case x of None \<Rightarrow> d | Some v \<Rightarrow> if v = 0 then d else v)"

definition MemoryStore_new :: "MemoryStore_options \<Rightarrow> 'v MemoryStore" where
  "MemoryStore_new options =
     \<lparr> sessions = [],
       expirationIndex = [],
       maxAge = or_default (opt_maxAge options) 86400000,
       cleanupInterval = or_default (opt_cleanupInterval options) 300000,
       indexInterval = or_default (opt_indexInterval options) 60000,
       cleanupIntervalId = None,
       indexRebuildIntervalId = None \<rparr>"

text \<open>\<open>set\<close> answers \<open>callback(null)\<close>: the second component is the error, always \<open>None\<close>.\<close>

definition MemoryStore_set ::
  "int \<Rightarrow> string \<Rightarrow> 'v payload \<Rightarrow> 'v MemoryStore \<Rightarrow> 'v MemoryStore \<times> string option" where
  "MemoryStore_set now sid session st =
     (let expires = now + maxAge st in
      (st\<lparr> sessions := Map_set sid \<lparr> data = spread session, expires = expires \<rparr> (sessions st),
           expirationIndex := Map_set expires sid (expirationIndex st) \<rparr>,
       None))"

definition MemoryStore_destroy :: "string \<Rightarrow> 'v MemoryStore \<Rightarrow> 'v MemoryStore" where
  "MemoryStore_destroy sid st =
     (case Map_get sid (sessions st) of
        None \<Rightarrow> st
      | Some sessionData \<Rightarrow>
          st\<lparr> sessions := Map_delete sid (sessions st),
              expirationIndex := Map_delete (expires sessionData) (expirationIndex st) \<rparr>)"

definition MemoryStore_get ::
  "int \<Rightarrow> string \<Rightarrow> 'v MemoryStore \<Rightarrow> 'v MemoryStore \<times> 'v payload result" where
  "MemoryStore_get now sid st =
     (case Map_get sid (sessions st) of
        None \<Rightarrow> (st, Absent)
      | Some sessionData \<Rightarrow>
          if now > expires sessionData then (MemoryStore_destroy sid st, Absent)
          else (st, Found (data sessionData)))"

text \<open>\<open>all\<close>, \<open>length\<close> and \<open>clear\<close>; \<open>all\<close> and \<open>length\<close> assign nothing.\<close>

definition MemoryStore_all ::
  "int \<Rightarrow> 'v MemoryStore \<Rightarrow> 'v MemoryStore \<times> (string \<times> 'v payload) list" where
  "MemoryStore_all now st =
     (st, map (\<lambda>(sid, sessionData). (sid, data sessionData))
            (filter (\<lambda>(sid, sessionData). now < expires sessionData) (sessions st)))"

definition MemoryStore_length :: "'v MemoryStore \<Rightarrow> 'v MemoryStore \<times> nat" where
  "MemoryStore_length st = (st, length (sessions st))"

definition MemoryStore_clear :: "'v MemoryStore \<Rightarrow> 'v MemoryStore" where
  "MemoryStore_clear st = st\<lparr> sessions := [], expirationIndex := [] \<rparr>"

text \<open>\<open>touch\<close> stores the caller's object itself (no spread).\<close>

definition MemoryStore_touch ::
  "int \<Rightarrow> string \<Rightarrow> 'v payload \<Rightarrow> 'v MemoryStore \<Rightarrow> 'v MemoryStore" where
  "MemoryStore_touch now sid session st =
     (case Map_get sid (sessions st) of
        None \<Rightarrow> st
      | Some sessionData \<Rightarrow>
          (let oldExpires = expires sessionData;
               newExpires = now + maxAge st
           in st\<lparr> sessions := Map_set sid \<lparr> data = session, expires = newExpires \<rparr> (sessions st),
                  expirationIndex :=
                    Map_set newExpires sid (Map_delete oldExpires (expirationIndex st)) \<rparr>))"

text \<open>
  \<open>cleanupSessions\<close> iterates over \<open>expirationIndex\<close> and deletes from it while it
  iterates. A \<open>Map\<close> iterator visits the entries present when it reaches them, in
  insertion order, and skips deleted ones. The body deletes the entry it visits
  (unless it breaks) and inserts nothing, so the entry visited next is always the
  first entry left in the index: the loop is a recursion on the current index.
  \<open>cleanup_entry\<close> is the body for an entry with \<open>expires \<le> now\<close>.
\<close>

definition cleanup_entry :: "int \<Rightarrow> string \<Rightarrow> 'v MemoryStore \<Rightarrow> 'v MemoryStore" where
  "cleanup_entry expiresAt sid st =
     (let st1 = MemoryStore_destroy sid st
      in st1\<lparr> expirationIndex := Map_delete expiresAt (expirationIndex st1) \<rparr>)"

lemma length_Map_delete_le: "length (Map_delete k m) \<le> length m"
  by (induction m) (auto simp: le_SucI)

lemma Map_delete_commute: "Map_delete a (Map_delete b m) = Map_delete b (Map_delete a m)"
  by (induction m) auto

lemma length_Map_delete_head: "length (Map_delete k ((k, v) # m)) < length ((k, v) # m)"
  using length_Map_delete_le [of k m] by simp

lemma cleanup_entry_decreases:
  assumes "expirationIndex st = (e, sid) # rest"
  shows "length (expirationIndex (cleanup_entry e sid st)) < length (expirationIndex st)"
proof (cases "Map_get sid (sessions st)")
  case None
  then show ?thesis
    using assms length_Map_delete_head [of e sid rest]
    by (simp add: cleanup_entry_def MemoryStore_destroy_def del: Map_delete.simps)
next
  case (Some sessionData)
  have "length (Map_delete e (Map_delete (expires sessionData) ((e, sid) # rest)))
          = length (Map_delete (expires sessionData) (Map_delete e ((e, sid) # rest)))"
    by (simp only: Map_delete_commute)
  also have "\<dots> \<le> length (Map_delete e ((e, sid) # rest))"
    by (rule length_Map_delete_le)
  also have "\<dots> < length ((e, sid) # rest)"
    by (rule length_Map_delete_head)
  finally show ?thesis
    using assms Some
    by (simp add: cleanup_entry_def MemoryStore_destroy_def del: Map_delete.simps)
qed

function cleanup_loop :: "int \<Rightarrow> 'v MemoryStore \<Rightarrow> 'v MemoryStore" where
  "cleanup_loop now st =
     (case expirationIndex st of
        [] \<Rightarrow> st
      | (expiresAt, sid) # rest \<Rightarrow>
          if expiresAt \<le> now then cleanup_loop now (cleanup_entry expiresAt sid st) else st)"
  by pat_completeness auto
termination
proof (relation "measure (\<lambda>(now, st). length (expirationIndex st))", goal_cases)
  case 1
  show ?case by simp
next
  case (2 now st p rest expiresAt sid)
  then have "expirationIndex st = (expiresAt, sid) # rest"
    by simp
  from cleanup_entry_decreases [OF this] show ?case
    by simp
qed

declare cleanup_loop.simps [simp del]

definition cleanupSessions :: "int \<Rightarrow> 'v MemoryStore \<Rightarrow> 'v MemoryStore" where
  "cleanupSessions now st = cleanup_loop now st"

text \<open>
  The same loop as the iterator runs it: the entries present at the start are taken
  in order, an entry whose key has been deleted in the meantime is skipped. On a
  store whose index has each key once this is \<open>cleanup_loop\<close> (lemma
  \<open>cleanupSessions_iterate\<close> below).
\<close>

fun cleanup_iterate :: "int \<Rightarrow> (int \<times> string) list \<Rightarrow> 'v MemoryStore \<Rightarrow> 'v MemoryStore" where
  "cleanup_iterate now [] st = st"
| "cleanup_iterate now ((expiresAt, sid) # rest) st =
     (if Map_get expiresAt (expirationIndex st) = None then cleanup_iterate now rest st
      else if expiresAt \<le> now then cleanup_iterate now rest (cleanup_entry expiresAt sid st)
      else st)"

text \<open>
  \<open>rebuildIndex\<close> iterates over \<open>sessions\<close>; the body deletes nothing but the entry it
  visits and inserts nothing into \<open>sessions\<close>, so the entries visited are those present
  at the start, in order. The loop state is \<open>newIndex\<close> and \<open>this.sessions\<close>.
\<close>

fun rebuild_loop ::
  "int \<Rightarrow> (string \<times> 'v sessionData) list \<Rightarrow>
   (int \<times> string) list \<times> (string \<times> 'v sessionData) list \<Rightarrow>
   (int \<times> string) list \<times> (string \<times> 'v sessionData) list" where
  "rebuild_loop now [] (newIndex, sess) = (newIndex, sess)"
| "rebuild_loop now ((sid, sessionData) # rest) (newIndex, sess) =
     (if expires sessionData > now
      then rebuild_loop now rest (Map_set (expires sessionData) sid newIndex, sess)
      else rebuild_loop now rest (newIndex, Map_delete sid sess))"

definition rebuildIndex :: "int \<Rightarrow> 'v MemoryStore \<Rightarrow> 'v MemoryStore" where
  "rebuildIndex now st =
     (case rebuild_loop now (sessions st) ([], sessions st) of
        (newIndex, sess) \<Rightarrow> st\<lparr> sessions := sess, expirationIndex := newIndex \<rparr>)"

text \<open>Sequences of operations on one store, each with the clock reading it sees.\<close>

datatype 'v operation =
    Set string "'v payload"
  | Touch string "'v payload"
  | Get string
  | Destroy string
  | All
  | Length
  | Clear
  | Cleanup
  | Rebuild

fun MemoryStore_step :: "int \<times> 'v operation \<Rightarrow> 'v MemoryStore \<Rightarrow> 'v MemoryStore" where
  "MemoryStore_step (now, Set sid session) st = fst (MemoryStore_set now sid session st)"
| "MemoryStore_step (now, Touch sid session) st = MemoryStore_touch now sid session st"
| "MemoryStore_step (now, Get sid) st = fst (MemoryStore_get now sid st)"
| "MemoryStore_step (now, Destroy sid) st = MemoryStore_destroy sid st"
| "MemoryStore_step (now, All) st = fst (MemoryStore_all now st)"
| "MemoryStore_step (now, Length) st = fst (MemoryStore_length st)"
| "MemoryStore_step (now, Clear) st = MemoryStore_clear st"
| "MemoryStore_step (now, Cleanup) st = cleanupSessions now st"
| "MemoryStore_step (now, Rebuild) st = rebuildIndex now st"

fun MemoryStore_run :: "(int \<times> 'v operation) list \<Rightarrow> 'v MemoryStore \<Rightarrow> 'v MemoryStore" where
  "MemoryStore_run [] st = st"
| "MemoryStore_run (x # xs) st = MemoryStore_run xs (MemoryStore_step x st)"

section \<open>The file store (\<open>src/storages/fileStore.js\<close>): \<open>get\<close> and \<open>destroy\<close>\<close>
















section \<open>Invariants and auxiliary notions\<close>

text \<open>Both maps of a store have each key once.\<close>

definition MemoryStore_wf :: "'v MemoryStore \<Rightarrow> bool" where
  "MemoryStore_wf st \<longleftrightarrow> Map_wf (sessions st) \<and> Map_wf (expirationIndex st)"

text \<open>The ids of the records of a primary map that expire at a given time, in map order.\<close>

definition ids_expiring_at :: "int \<Rightarrow> (string \<times> 'v sessionData) list \<Rightarrow> string list" where
  "ids_expiring_at e m = map fst (filter (\<lambda>(sid, sessionData). expires sessionData = e) m)"

text \<open>No record expires later than \<open>maxAge\<close> after the time \<open>t\<close>.\<close>

definition expires_bounded :: "int \<Rightarrow> 'v MemoryStore \<Rightarrow> bool" where
  "expires_bounded t st \<longleftrightarrow> (\<forall>(sid, sessionData) \<in> set (sessions st). expires sessionData \<le> t + maxAge st)"

text \<open>
  The keys of the index are in ascending order, and none is later than \<open>maxAge\<close> after
  the time \<open>t\<close>.
\<close>

definition index_ascending :: "int \<Rightarrow> 'v MemoryStore \<Rightarrow> bool" where
  "index_ascending t st \<longleftrightarrow>
     sorted (map fst (expirationIndex st))
     \<and> (\<forall>e \<in> fst ` set (expirationIndex st). e \<le> t + maxAge st)"

section \<open>Example stores\<close>

definition options_1s :: MemoryStore_options where
  "options_1s = \<lparr> opt_maxAge = Some 1000, opt_cleanupInterval = None, opt_indexInterval = None \<rparr>"

text \<open>
  A store in which the index is out of order, reached with a clock that only moves
  forward: two records are set, the first one is touched, and the index is rebuilt.
  \<open>rebuildIndex\<close> inserts in the order of the primary map, where the touched record
  still comes first.
\<close>

definition drifted :: "int MemoryStore" where
  "drifted = MemoryStore_run
     [(0, Set ''s1'' [(''a'', 1)]), (50, Set ''s2'' [(''b'', 2)]),
      (100, Touch ''s1'' [(''a'', 1)]), (200, Rebuild)]
     (MemoryStore_new options_1s)"

text \<open>Two records set within the same millisecond.\<close>

definition collided :: "int MemoryStore" where
  "collided = MemoryStore_run [(0, Set ''s1'' [(''a'', 1)]), (0, Set ''s2'' [(''b'', 2)])]
                (MemoryStore_new options_1s)"









section \<open>Properties of the \<open>Map\<close> operations and of the spread\<close>

lemma Map_get_Map_set:
  "Map_get k (Map_set k' v m) = (if k = k' then Some v else Map_get k m)"
  by (induction m) auto

lemma Map_get_Map_delete:
  "Map_get k (Map_delete k' m) = (if k = k' then None else Map_get k m)"
  by (induction m) auto

lemma Map_set_fresh: "k \<notin> fst ` set m \<Longrightarrow> Map_set k v m = m @ [(k, v)]"
  by (induction m) auto

lemma fold_Map_set_fresh:
  "distinct (map fst xs) \<Longrightarrow> fst ` set xs \<inter> fst ` set acc = {} \<Longrightarrow>
   fold (\<lambda>(k, v) obj. Map_set k v obj) xs acc = acc @ xs"
proof (induction xs arbitrary: acc)
  case Nil
  then show ?case by simp
next
  case (Cons x xs)
  obtain k v where x: "x = (k, v)"
    by (cases x)
  have fresh: "k \<notin> fst ` set acc"
    using Cons.prems(2) x by auto
  have "fst ` set xs \<inter> fst ` set (acc @ [(k, v)]) = {}"
    using Cons.prems x by auto
  with Cons.IH [of "acc @ [(k, v)]"] Cons.prems(1) x fresh show ?case
    by (simp add: Map_set_fresh)
qed

lemma Map_get_in_set: "Map_get k m = Some v \<Longrightarrow> (k, v) \<in> set m"
  by (induction m) (auto split: if_splits)

lemma Map_get_None_iff: "Map_get k m = None \<longleftrightarrow> k \<notin> fst ` set m"
  by (induction m) (auto split: if_splits)

lemma Map_wf_in_set_get: "Map_wf m \<Longrightarrow> (k, v) \<in> set m \<Longrightarrow> Map_get k m = Some v"
  by (induction m) (auto simp: Map_wf_def rev_image_eqI split: if_splits)

lemma Map_wf_get_iff: "Map_wf m \<Longrightarrow> (k, v) \<in> set m \<longleftrightarrow> Map_get k m = Some v"
  using Map_get_in_set Map_wf_in_set_get by fast

text \<open>The spread of an object (each key once) is a structurally equal object.\<close>

lemma spread_object: "distinct (map fst session) \<Longrightarrow> spread session = session"
  using fold_Map_set_fresh [of session "[]"] by (simp add: spread_def)

section \<open>The memory store: \<open>set\<close> and \<open>get\<close>\<close>

lemmas MemoryStore_defs =
  MemoryStore_new_def options_1s_def or_default_def spread_def MemoryStore_set_def
  MemoryStore_get_def MemoryStore_destroy_def MemoryStore_touch_def MemoryStore_all_def
  MemoryStore_clear_def MemoryStore_length_def

text \<open>
  C2. \<open>get(id)\<close> is claimed to report no record whenever \<open>now \<ge> expiresAt\<close>. The code
  tests \<open>Date.now() > sessionData.expires\<close>: a record set at time 0 with \<open>maxAge\<close> 1000
  expires at 1000, and \<open>get\<close> at time 1000 still returns its payload.
\<close>

theorem MemoryStore_get_at_expiry_returns_payload:
  "MemoryStore_get 1000 ''s1''
     (fst (MemoryStore_set 0 ''s1'' [(''a'', 1 :: int)] (MemoryStore_new options_1s)))
     = (fst (MemoryStore_set 0 ''s1'' [(''a'', 1)] (MemoryStore_new options_1s)),
        Found [(''a'', 1)])
   \<and> Map_get ''s1''
         (sessions (fst (MemoryStore_set 0 ''s1'' [(''a'', 1 :: int)] (MemoryStore_new options_1s))))
       = Some \<lparr> data = [(''a'', 1)], expires = 1000 \<rparr>"
  by (simp add: MemoryStore_defs)

text \<open>
  C3. \<open>set(id, payload)\<close> has no error path (its callback gets \<open>null\<close>). It stores under
  \<open>id\<close> the spread of the payload, which for an object is structurally the payload
  itself, with \<open>expires = now + maxAge\<close>; it maps \<open>now + maxAge\<close> to \<open>id\<close> in the
  expiration index; and it leaves every other index entry as it was, so an entry
  that the index had for this id under another expiration time stays.
\<close>

theorem MemoryStore_set_effect:
  "(let st' = fst (MemoryStore_set now sid session st) in
      snd (MemoryStore_set now sid session st) = None
    \<and> Map_get sid (sessions st') = Some \<lparr> data = spread session, expires = now + maxAge st \<rparr>
    \<and> (distinct (map fst session) \<longrightarrow> spread session = session)
    \<and> Map_get (now + maxAge st) (expirationIndex st') = Some sid
    \<and> (\<forall>e. e \<noteq> now + maxAge st \<longrightarrow>
           Map_get e (expirationIndex st') = Map_get e (expirationIndex st)))"
  by (simp add: MemoryStore_set_def Let_def Map_get_Map_set spread_object)

theorem MemoryStore_set_effect_witness:
  "(let st = fst (MemoryStore_set 0 ''s1'' [(''a'', 1 :: int)] (MemoryStore_new options_1s));
        st' = fst (MemoryStore_set 5 ''s1'' [(''a'', 2)] st) in
      Map_get ''s1'' (sessions st') = Some \<lparr> data = [(''a'', 2)], expires = 1005 \<rparr>
    \<and> Map_get 1005 (expirationIndex st') = Some ''s1''
    \<and> Map_get 1000 (expirationIndex st) = Some ''s1''
    \<and> Map_get 1000 (expirationIndex st') = Some ''s1'')"
proof -
  define st :: "int MemoryStore"
    where "st = fst (MemoryStore_set 0 ''s1'' [(''a'', 1)] (MemoryStore_new options_1s))"
  have old: "Map_get 1000 (expirationIndex st) = Some ''s1''" and age: "maxAge st = 1000"
    by (simp_all add: st_def MemoryStore_defs)
  have obj: "distinct (map fst [(''a'', 2 :: int)])" and other: "(1000 :: int) \<noteq> 5 + 1000"
    by simp_all
  show ?thesis
    using MemoryStore_set_effect [of 5 "''s1''" "[(''a'', 2)]" st] old age obj other
    by (simp add: Let_def st_def [symmetric])
qed

text \<open>
  C6. Round trip: for an object \<open>session\<close>, \<open>set(id, session)\<close> at time \<open>now\<close> followed by
  \<open>get(id)\<close> at a time before the expiry \<open>now + maxAge\<close> returns a payload equal to
  \<open>session\<close>.
\<close>

theorem MemoryStore_set_get_roundtrip:
  "distinct (map fst session) \<Longrightarrow> now' < now + maxAge st \<Longrightarrow>
   snd (MemoryStore_get now' sid (fst (MemoryStore_set now sid session st))) = Found session"
  by (simp add: MemoryStore_get_def MemoryStore_set_def Let_def Map_get_Map_set spread_object)

theorem MemoryStore_set_get_roundtrip_witness:
  "distinct (map fst [(''a'', 1 :: int), (''b'', 2)]) \<and> (0 :: int) < 0 + 1000
   \<and> snd (MemoryStore_get 0 ''s1''
         (fst (MemoryStore_set 0 ''s1'' [(''a'', 1 :: int), (''b'', 2)] (MemoryStore_new options_1s))))
       = Found [(''a'', 1), (''b'', 2)]"
proof -
  have obj: "distinct (map fst [(''a'', 1 :: int), (''b'', 2)])"
    by simp
  have live: "(0 :: int) < 0 + maxAge (MemoryStore_new options_1s :: int MemoryStore)"
    by (simp add: MemoryStore_defs)
  show ?thesis
    using MemoryStore_set_get_roundtrip [OF obj live, of "''s1''"] obj by simp
qed

section \<open>The memory store: \<open>touch\<close> and \<open>all\<close>\<close>

text \<open>
  C5. \<open>touch(id, payload)\<close> on an absent id returns the store as it was. On a present
  id it stores the payload with \<open>expires = now + maxAge\<close>, the index maps the new
  expiration time to the id, the key of the old expiration time is gone from the
  index, and all other index keys and all other records are as before.
\<close>

theorem MemoryStore_touch_effect:
  "(Map_get sid (sessions st) = None \<longrightarrow> MemoryStore_touch now sid session st = st)
 \<and> (\<forall>sessionData. Map_get sid (sessions st) = Some sessionData \<longrightarrow>
      (let st' = MemoryStore_touch now sid session st;
           oldExpires = expires sessionData;
           newExpires = now + maxAge st in
         Map_get sid (sessions st') = Some \<lparr> data = session, expires = newExpires \<rparr>
       \<and> Map_get newExpires (expirationIndex st') = Some sid
       \<and> (oldExpires \<noteq> newExpires \<longrightarrow> Map_get oldExpires (expirationIndex st') = None)
       \<and> (\<forall>e. e \<noteq> oldExpires \<and> e \<noteq> newExpires \<longrightarrow>
              Map_get e (expirationIndex st') = Map_get e (expirationIndex st))
       \<and> (\<forall>sid'. sid' \<noteq> sid \<longrightarrow> Map_get sid' (sessions st') = Map_get sid' (sessions st))))"
  by (simp add: MemoryStore_touch_def Let_def Map_get_Map_set Map_get_Map_delete)

theorem MemoryStore_touch_effect_witness:
  "(let st0 = MemoryStore_new options_1s :: int MemoryStore;
        st = fst (MemoryStore_set 0 ''s1'' [(''a'', 1)] st0);
        st' = MemoryStore_touch 5 ''s1'' [(''a'', 2)] st in
      MemoryStore_touch 5 ''s1'' [(''a'', 2)] st0 = st0
    \<and> Map_get ''s1'' (sessions st') = Some \<lparr> data = [(''a'', 2)], expires = 1005 \<rparr>
    \<and> Map_get 1005 (expirationIndex st') = Some ''s1''
    \<and> Map_get 1000 (expirationIndex st') = None
    \<and> Map_get 7 (expirationIndex st') = None
    \<and> Map_get ''s2'' (sessions st') = None)"
proof -
  define st0 :: "int MemoryStore" where "st0 = MemoryStore_new options_1s"
  define st where "st = fst (MemoryStore_set 0 ''s1'' [(''a'', 1)] st0)"
  have absent: "Map_get ''s1'' (sessions st0) = None"
    by (simp add: st0_def MemoryStore_defs)
  have present: "Map_get ''s1'' (sessions st) = Some \<lparr> data = [(''a'', 1)], expires = 1000 \<rparr>"
    and age: "maxAge st = 1000"
    and others: "Map_get 7 (expirationIndex st) = None" "Map_get ''s2'' (sessions st) = None"
    by (simp_all add: st_def st0_def MemoryStore_defs)
  show ?thesis
    using MemoryStore_touch_effect [of "''s1''" st0 5 "[(''a'', 2)]"]
      MemoryStore_touch_effect [of "''s1''" st 5 "[(''a'', 2)]"] absent present age others
    by (simp add: Let_def st_def [symmetric] st0_def [symmetric])
qed

text \<open>
  C7. \<open>all()\<close> leaves the store as it is and returns, in the order of the primary map,
  the pairs (id, payload) of exactly the records with \<open>now < expires\<close>.
\<close>

theorem MemoryStore_all_effect:
  "fst (MemoryStore_all now st) = st
 \<and> snd (MemoryStore_all now st)
     = [(sid, data sessionData). (sid, sessionData) \<leftarrow> sessions st, now < expires sessionData]
 \<and> (\<forall>sid p. (sid, p) \<in> set (snd (MemoryStore_all now st)) \<longleftrightarrow>
       (\<exists>sessionData. (sid, sessionData) \<in> set (sessions st) \<and> now < expires sessionData
          \<and> p = data sessionData))
 \<and> (Map_wf (sessions st) \<longrightarrow>
      (\<forall>sid p. (sid, p) \<in> set (snd (MemoryStore_all now st)) \<longleftrightarrow>
        (\<exists>sessionData. Map_get sid (sessions st) = Some sessionData \<and> now < expires sessionData
           \<and> p = data sessionData)))"
proof -
  have list: "map (\<lambda>(sid, sessionData). (sid, data sessionData))
                 (filter (\<lambda>(sid, sessionData). now < expires sessionData) m)
              = [(sid, data sessionData). (sid, sessionData) \<leftarrow> m, now < expires sessionData]"
    for m :: "(string \<times> 'a sessionData) list"
    by (induction m) auto
  have mem: "(sid, p) \<in> set (snd (MemoryStore_all now st)) \<longleftrightarrow>
       (\<exists>sessionData. (sid, sessionData) \<in> set (sessions st) \<and> now < expires sessionData
          \<and> p = data sessionData)" for sid p
    by (auto simp: MemoryStore_all_def)
  show ?thesis
    using list [of "sessions st"] mem by (simp add: Map_wf_get_iff) (simp add: MemoryStore_all_def)
qed


theorem MemoryStore_all_effect_witness:
  "(let st = MemoryStore_run [(0, Set ''s1'' [(''a'', 1 :: int)]), (500, Set ''s2'' [(''b'', 2)])]
               (MemoryStore_new options_1s) in
      Map_wf (sessions st)
    \<and> fst (MemoryStore_all 1200 st) = st
    \<and> snd (MemoryStore_all 1200 st) = [(''s2'', [(''b'', 2)])]
    \<and> Map_get ''s1'' (sessions st) = Some \<lparr> data = [(''a'', 1)], expires = 1000 \<rparr>
    \<and> (''s1'', [(''a'', 1)]) \<notin> set (snd (MemoryStore_all 1200 st))
    \<and> (''s2'', [(''b'', 2)]) \<in> set (snd (MemoryStore_all 1200 st)))"
proof -
  define st :: "int MemoryStore" where
    "st = MemoryStore_run [(0, Set ''s1'' [(''a'', 1)]), (500, Set ''s2'' [(''b'', 2)])]
            (MemoryStore_new options_1s)"
  have s: "sessions st = [(''s1'', \<lparr> data = [(''a'', 1)], expires = 1000 \<rparr>),
                          (''s2'', \<lparr> data = [(''b'', 2)], expires = 1500 \<rparr>)]"
    by (simp add: st_def MemoryStore_defs)
  have wf: "Map_wf (sessions st)"
    by (simp add: s Map_wf_def)
  have "Map_wf (sessions st)
    \<and> fst (MemoryStore_all 1200 st) = st
    \<and> snd (MemoryStore_all 1200 st) = [(''s2'', [(''b'', 2)])]
    \<and> Map_get ''s1'' (sessions st) = Some \<lparr> data = [(''a'', 1)], expires = 1000 \<rparr>
    \<and> (''s1'', [(''a'', 1)]) \<notin> set (snd (MemoryStore_all 1200 st))
    \<and> (''s2'', [(''b'', 2)]) \<in> set (snd (MemoryStore_all 1200 st))"
    using MemoryStore_all_effect [of 1200 st] wf by (simp add: s)
  then show ?thesis
    unfolding st_def Let_def .
qed

section \<open>The memory store: the cleanup loop\<close>

lemma Map_delete_filter: "Map_delete k m = filter (\<lambda>p. fst p \<noteq> k) m"
  by (induction m) auto

lemma subseq_Map_delete: "subseq (Map_delete k m) m"
  by (simp add: Map_delete_filter)

lemma subseq_set: "subseq xs ys \<Longrightarrow> set xs \<subseteq> set ys"
  by (induction rule: list_emb.induct) auto

lemma subseq_sorted: "subseq xs ys \<Longrightarrow> sorted ys \<Longrightarrow> sorted xs"
  by (induction rule: list_emb.induct) (auto dest: subseq_set)

lemma subseq_distinct: "subseq xs ys \<Longrightarrow> distinct ys \<Longrightarrow> distinct xs"
  by (induction rule: list_emb.induct) (auto dest: subseq_set)

lemma subseq_Map_wf: "subseq m' m \<Longrightarrow> Map_wf m \<Longrightarrow> Map_wf m'"
  unfolding Map_wf_def by (rule subseq_distinct [OF subseq_map])

lemma destroy_subseq:
  "subseq (sessions (MemoryStore_destroy sid st)) (sessions st)"
  "subseq (expirationIndex (MemoryStore_destroy sid st)) (expirationIndex st)"
  by (simp_all add: MemoryStore_destroy_def subseq_Map_delete split: option.split)

lemma cleanup_loop_Nil: "expirationIndex st = [] \<Longrightarrow> cleanup_loop now st = st"
  by (simp add: cleanup_loop.simps [of now st])

lemma cleanup_loop_stop:
  "expirationIndex st = (e, sid) # rest \<Longrightarrow> now < e \<Longrightarrow> cleanup_loop now st = st"
  by (simp add: cleanup_loop.simps [of now st])

lemma cleanup_loop_step:
  "expirationIndex st = (e, sid) # rest \<Longrightarrow> e \<le> now \<Longrightarrow>
   cleanup_loop now st = cleanup_loop now (cleanup_entry e sid st)"
  by (simp add: cleanup_loop.simps [of now st] cleanup_entry_def Let_def)

lemma cleanup_loop_cases [consumes 0, case_names Nil stop step]:
  assumes "\<And>st. expirationIndex st = [] \<Longrightarrow> P st"
    and "\<And>st e sid rest. expirationIndex st = (e, sid) # rest \<Longrightarrow> now < e \<Longrightarrow> P st"
    and "\<And>st e sid rest. expirationIndex st = (e, sid) # rest \<Longrightarrow> e \<le> now \<Longrightarrow>
           P (cleanup_entry e sid st) \<Longrightarrow> P st"
  shows "P st"
  using assms
proof (induction now st rule: cleanup_loop.induct)
  case (1 now st)
  show ?case
  proof (cases "expirationIndex st")
    case Nil
    then show ?thesis by (rule "1.prems"(1))
  next
    case (Cons p rest)
    obtain e sid where p: "p = (e, sid)" by (cases p)
    have index: "expirationIndex st = (e, sid) # rest"
      using Cons p by simp
    show ?thesis
    proof (cases "e \<le> now")
      case False
      then have "now < e" by simp
      with index show ?thesis by (rule "1.prems"(2))
    next
      case True
      have "P (cleanup_entry e sid st)"
        using "1.IH" [OF Cons p [symmetric] True "1.prems"] .
      with index True show ?thesis by (rule "1.prems"(3))
    qed
  qed
qed

lemma cleanup_entry_subseq:
  "subseq (sessions (cleanup_entry e sid st)) (sessions st)"
  "subseq (expirationIndex (cleanup_entry e sid st)) (expirationIndex st)"
  using subseq_Map_delete [of e "expirationIndex (MemoryStore_destroy sid st)"]
    destroy_subseq [of sid st]
  by (auto simp: cleanup_entry_def Let_def intro: subseq_order.trans)

lemma cleanup_loop_subseq:
  "subseq (sessions (cleanup_loop now st)) (sessions st)
   \<and> subseq (expirationIndex (cleanup_loop now st)) (expirationIndex st)"
proof (induction st rule: cleanup_loop_cases [where now = now])
  case (Nil st)
  then show ?case by (simp add: cleanup_loop_Nil)
next
  case (stop st e sid rest)
  then show ?case by (simp add: cleanup_loop_stop)
next
  case (step st e sid rest)
  then show ?case
    using cleanup_entry_subseq [of e sid st]
    by (auto simp: cleanup_loop_step [of st e sid rest now] intro: subseq_order.trans)
qed

lemma cleanup_loop_head:
  "(case expirationIndex (cleanup_loop now st) of [] \<Rightarrow> True | (e, sid) # rest \<Rightarrow> now < e)"
proof (induction st rule: cleanup_loop_cases [where now = now])
  case (Nil st)
  then show ?case by (simp add: cleanup_loop_Nil)
next
  case (stop st e sid rest)
  then show ?case by (simp add: cleanup_loop_stop)
next
  case (step st e sid rest)
  then show ?case by (simp add: cleanup_loop_step [of st e sid rest now])
qed

lemma cleanup_loop_destroys_named:
  "Map_get sid (sessions st) = Some r \<Longrightarrow> Map_get sid (sessions (cleanup_loop now st)) = None \<Longrightarrow>
   \<exists>e. e \<le> now \<and> (e, sid) \<in> set (expirationIndex st)"
proof (induction st rule: cleanup_loop_cases [where now = now])
  case (Nil st)
  then show ?case by (simp add: cleanup_loop_Nil)
next
  case (stop st e sid0 rest)
  then show ?case by (simp add: cleanup_loop_stop)
next
  case (step st e sid0 rest)
  show ?case
  proof (cases "sid = sid0")
    case True
    then show ?thesis using step.hyps by auto
  next
    case False
    then have "Map_get sid (sessions (cleanup_entry e sid0 st)) = Some r"
      using step.prems(1)
      by (simp add: cleanup_entry_def Let_def MemoryStore_destroy_def Map_get_Map_delete
            split: option.split)
    moreover have "Map_get sid (sessions (cleanup_loop now (cleanup_entry e sid0 st))) = None"
      using step.prems(2) step.hyps by (simp add: cleanup_loop_step [of st e sid0 rest now])
    ultimately have "\<exists>e'. e' \<le> now \<and> (e', sid) \<in> set (expirationIndex (cleanup_entry e sid0 st))"
      by (rule step.IH)
    then show ?thesis
      using subseq_set [OF cleanup_entry_subseq(2) [of e sid0 st]] by blast
  qed
qed

lemma cleanup_loop_keeps:
  "Map_get sid (sessions (cleanup_loop now st)) = Some r \<Longrightarrow> Map_get sid (sessions st) = Some r"
proof (induction st rule: cleanup_loop_cases [where now = now])
  case (Nil st)
  then show ?case by (simp add: cleanup_loop_Nil)
next
  case (stop st e sid0 rest)
  then show ?case by (simp add: cleanup_loop_stop)
next
  case (step st e sid0 rest)
  then have "Map_get sid (sessions (cleanup_entry e sid0 st)) = Some r"
    by (simp add: cleanup_loop_step [of st e sid0 rest now])
  then show ?case
    by (simp add: cleanup_entry_def Let_def MemoryStore_destroy_def Map_get_Map_delete
          split: option.splits if_splits)
qed

lemma cleanup_entry_removes:
  "Map_get sid (sessions (cleanup_entry e sid st)) = None"
  "Map_get e (expirationIndex (cleanup_entry e sid st)) = None"
  by (simp_all add: cleanup_entry_def Let_def MemoryStore_destroy_def Map_get_Map_delete
        split: option.split)

lemma cleanup_loop_removed_stays:
  assumes "Map_get sid (sessions st) = None" and "Map_get e (expirationIndex st) = None"
  shows "Map_get sid (sessions (cleanup_loop now st)) = None"
    and "Map_get e (expirationIndex (cleanup_loop now st)) = None"
proof -
  show "Map_get sid (sessions (cleanup_loop now st)) = None"
    using cleanup_loop_keeps [of sid now st] assms(1)
    by (cases "Map_get sid (sessions (cleanup_loop now st))") auto
  have "fst ` set (expirationIndex (cleanup_loop now st)) \<subseteq> fst ` set (expirationIndex st)"
    using subseq_set cleanup_loop_subseq [of now st] by blast
  then show "Map_get e (expirationIndex (cleanup_loop now st)) = None"
    using assms(2) by (auto simp: Map_get_None_iff)
qed

lemma subseq_Cons_absent:
  "subseq xs (y # ys) \<Longrightarrow> y \<notin> set xs \<Longrightarrow> subseq xs ys"
  by (cases xs) (auto split: if_splits)

lemma subseq_Cons_present:
  assumes "subseq xs ((k, v) # ys)" and "k \<in> fst ` set xs" and "k \<notin> fst ` set ys"
  shows "\<exists>xs'. xs = (k, v) # xs' \<and> subseq xs' ys"
proof (cases xs)
  case Nil
  then show ?thesis using assms(2) by simp
next
  case (Cons x xs')
  show ?thesis
  proof (cases "x = (k, v)")
    case True
    then show ?thesis using assms(1) Cons by simp
  next
    case False
    then have "subseq xs ys"
      using assms(1) Cons by simp
    then have "fst ` set xs \<subseteq> fst ` set ys"
      using subseq_set by blast
    then show ?thesis using assms(2,3) by blast
  qed
qed

lemma cleanup_iterate_loop:
  "subseq (expirationIndex st) es \<Longrightarrow> distinct (map fst es) \<Longrightarrow>
   cleanup_iterate now es st = cleanup_loop now st"
proof (induction es arbitrary: st)
  case Nil
  then show ?case by (simp add: cleanup_loop_Nil)
next
  case (Cons x es)
  obtain e sid where x: "x = (e, sid)" by (cases x)
  have fresh: "e \<notin> fst ` set es" and dist: "distinct (map fst es)"
    using Cons.prems(2) by (simp_all add: x)
  show ?case
  proof (cases "Map_get e (expirationIndex st) = None")
    case True
    then have "(e, sid) \<notin> set (expirationIndex st)"
      by (force simp: Map_get_None_iff)
    then have "subseq (expirationIndex st) es"
      using Cons.prems(1) subseq_Cons_absent by (simp add: x)
    then show ?thesis
      using Cons.IH [OF _ dist] True by (simp add: x)
  next
    case False
    then have "e \<in> fst ` set (expirationIndex st)"
      by (simp add: Map_get_None_iff)
    then obtain idx where idx: "expirationIndex st = (e, sid) # idx" "subseq idx es"
      using subseq_Cons_present [of "expirationIndex st" e sid es] Cons.prems(1) fresh
      by (auto simp: x)
    show ?thesis
    proof (cases "e \<le> now")
      case True
      have "subseq (expirationIndex (cleanup_entry e sid st)) (Map_delete e (expirationIndex st))"
        by (simp add: cleanup_entry_def Let_def MemoryStore_destroy_def Map_delete_filter
              Map_delete_commute [symmetric] split: option.split)
      moreover have "Map_delete e (expirationIndex st) = Map_delete e idx"
        by (simp add: idx)
      moreover have "subseq (Map_delete e idx) idx"
        by (rule subseq_Map_delete)
      ultimately have "subseq (expirationIndex (cleanup_entry e sid st)) es"
        using idx(2) by (metis subseq_order.trans)
      then show ?thesis
        using Cons.IH [OF _ dist] True False cleanup_loop_step [OF idx(1) True]
        by (auto simp: x)
    next
      case stop: False
      then show ?thesis
        using False cleanup_loop_stop [OF idx(1), of now] by (auto simp: x)
    qed
  qed
qed

lemma cleanupSessions_iterate:
  "Map_wf (expirationIndex st) \<Longrightarrow>
   cleanupSessions now st = cleanup_iterate now (expirationIndex st) st"
  by (simp add: cleanupSessions_def cleanup_iterate_loop Map_wf_def)

text \<open>
  What a pass does, on any store. When the first entry of the index has
  \<open>expiresAt > now\<close> the pass stops and leaves the store as it is; when it has
  \<open>expiresAt \<le> now\<close> the record of its id is destroyed, the entry is removed, and the
  pass goes on with the entries that are left. So a pass only removes entries and
  records, keeping the order of the rest; afterwards the index is empty or begins
  with an entry whose time is after \<open>now\<close>; a record that the pass removed was named
  by an index entry with \<open>expiresAt \<le> now\<close>; and when the keys of the index are in
  ascending order before the pass, no entry with \<open>expiresAt \<le> now\<close> is left.
\<close>

theorem cleanupSessions_pass:
  "(let st' = cleanupSessions now st in
      (\<forall>e sid rest. expirationIndex st = (e, sid) # rest \<and> now < e \<longrightarrow> st' = st)
    \<and> (\<forall>e sid rest. expirationIndex st = (e, sid) # rest \<and> e \<le> now \<longrightarrow>
          st' = cleanupSessions now (cleanup_entry e sid st)
          \<and> Map_get sid (sessions st') = None \<and> Map_get e (expirationIndex st') = None)
    \<and> subseq (expirationIndex st') (expirationIndex st)
    \<and> subseq (sessions st') (sessions st)
    \<and> (case expirationIndex st' of [] \<Rightarrow> True | (e, sid) # rest \<Rightarrow> now < e)
    \<and> (\<forall>sid r. Map_get sid (sessions st) = Some r \<and> Map_get sid (sessions st') = None \<longrightarrow>
          (\<exists>e. e \<le> now \<and> (e, sid) \<in> set (expirationIndex st)))
    \<and> (sorted (map fst (expirationIndex st)) \<longrightarrow>
          (\<forall>(e, sid) \<in> set (expirationIndex st'). now < e)))"
proof -
  define st' where "st' = cleanup_loop now st"
  have stop: "st' = st" if "expirationIndex st = (e, sid) # rest" "now < e" for e sid rest
    using cleanup_loop_stop [OF that] by (simp add: st'_def)
  have step: "st' = cleanup_loop now (cleanup_entry e sid st)
      \<and> Map_get sid (sessions st') = None \<and> Map_get e (expirationIndex st') = None"
    if "expirationIndex st = (e, sid) # rest" "e \<le> now" for e sid rest
    using cleanup_loop_step [OF that]
      cleanup_loop_removed_stays
        [OF cleanup_entry_removes(1) [of sid e st] cleanup_entry_removes(2) [of e sid st], of now]
    by (simp add: st'_def)
  have sub: "subseq (expirationIndex st') (expirationIndex st)"
    and sub': "subseq (sessions st') (sessions st)"
    using cleanup_loop_subseq [of now st] by (simp_all add: st'_def)
  have head: "(case expirationIndex st' of [] \<Rightarrow> True | (e, sid) # rest \<Rightarrow> now < e)"
    using cleanup_loop_head [of now st] by (simp add: st'_def)
  have named: "\<exists>e. e \<le> now \<and> (e, sid) \<in> set (expirationIndex st)"
    if "Map_get sid (sessions st) = Some r" "Map_get sid (sessions st') = None" for sid r
    using cleanup_loop_destroys_named that by (simp add: st'_def) blast
  have all: "\<forall>(e, sid) \<in> set (expirationIndex st'). now < e"
    if "sorted (map fst (expirationIndex st))"
  proof -
    have "sorted (map fst (expirationIndex st'))"
      using subseq_sorted [OF subseq_map [OF sub] that] .
    with head show ?thesis
      by (cases "expirationIndex st'") (auto simp: less_le_trans)
  qed
  have c1: "\<forall>e sid rest. expirationIndex st = (e, sid) # rest \<and> now < e \<longrightarrow> st' = st"
    using stop by blast
  have c2: "\<forall>e sid rest. expirationIndex st = (e, sid) # rest \<and> e \<le> now \<longrightarrow>
          st' = cleanup_loop now (cleanup_entry e sid st)
          \<and> Map_get sid (sessions st') = None \<and> Map_get e (expirationIndex st') = None"
    using step by blast
  have c3: "\<forall>sid r. Map_get sid (sessions st) = Some r \<and> Map_get sid (sessions st') = None \<longrightarrow>
          (\<exists>e. e \<le> now \<and> (e, sid) \<in> set (expirationIndex st))"
    using named by blast
  have c4: "sorted (map fst (expirationIndex st)) \<longrightarrow>
          (\<forall>(e, sid) \<in> set (expirationIndex st'). now < e)"
    using all by blast
  show ?thesis
    unfolding cleanupSessions_def Let_def st'_def [symmetric]
    by (intro conjI c1 c2 sub sub' head c3 c4)
qed

theorem cleanupSessions_pass_witness:
  "(let st = MemoryStore_run [(0, Set ''s1'' [(''a'', 1 :: int)]), (50, Set ''s2'' [(''b'', 2)])]
               (MemoryStore_new options_1s);
        st' = cleanupSessions 1020 st in
      sorted (map fst (expirationIndex st))
    \<and> Map_get ''s1'' (sessions st) = Some \<lparr> data = [(''a'', 1)], expires = 1000 \<rparr>
    \<and> Map_get ''s1'' (sessions st') = None
    \<and> (1000, ''s1'') \<in> set (expirationIndex st)
    \<and> expirationIndex st' = [(1050, ''s2'')]
    \<and> (\<forall>(e, sid) \<in> set (expirationIndex st'). 1020 < e)
    \<and> st' = cleanupSessions 1020 (cleanup_entry 1000 ''s1'' st)
    \<and> cleanupSessions 500 st = st)"
proof -
  define st :: "int MemoryStore" where
    "st = MemoryStore_run [(0, Set ''s1'' [(''a'', 1)]), (50, Set ''s2'' [(''b'', 2)])]
            (MemoryStore_new options_1s)"
  have before: "expirationIndex st = [(1000, ''s1''), (1050, ''s2'')]"
    "Map_get ''s1'' (sessions st) = Some \<lparr> data = [(''a'', 1)], expires = 1000 \<rparr>"
    by (simp_all add: st_def MemoryStore_defs)
  have after: "expirationIndex (cleanupSessions 1020 st) = [(1050, ''s2'')]"
    "Map_get ''s1'' (sessions (cleanupSessions 1020 st)) = None"
    by (simp_all add: st_def cleanupSessions_def cleanup_loop.simps cleanup_entry_def
          MemoryStore_defs)
  have ordered: "sorted (map fst (expirationIndex st))"
    by (simp add: before)
  have "sorted (map fst (expirationIndex st))
    \<and> Map_get ''s1'' (sessions st) = Some \<lparr> data = [(''a'', 1)], expires = 1000 \<rparr>
    \<and> Map_get ''s1'' (sessions (cleanupSessions 1020 st)) = None
    \<and> (1000, ''s1'') \<in> set (expirationIndex st)
    \<and> expirationIndex (cleanupSessions 1020 st) = [(1050, ''s2'')]
    \<and> (\<forall>(e, sid) \<in> set (expirationIndex (cleanupSessions 1020 st)). 1020 < e)
    \<and> cleanupSessions 1020 st = cleanupSessions 1020 (cleanup_entry 1000 ''s1'' st)
    \<and> cleanupSessions 500 st = st"
    using cleanupSessions_pass [of 1020 st, unfolded Let_def]
      cleanupSessions_pass [of 500 st, unfolded Let_def] ordered before after
    by (auto simp: before)
  then show ?thesis
    unfolding st_def Let_def .
qed

section \<open>The memory store: each key once\<close>

lemma keys_Map_set: "map fst (Map_set k v m) = (if k \<in> fst ` set m then map fst m else map fst m @ [k])"
  by (induction m) (auto split: if_splits)

lemma Map_wf_Map_set: "Map_wf m \<Longrightarrow> Map_wf (Map_set k v m)"
  by (simp add: Map_wf_def keys_Map_set)

lemma Map_wf_Map_delete: "Map_wf m \<Longrightarrow> Map_wf (Map_delete k m)"
  using subseq_Map_wf [OF subseq_Map_delete] .

lemma rebuild_loop_wf:
  "Map_wf newIndex \<Longrightarrow> Map_wf sess \<Longrightarrow>
   Map_wf (fst (rebuild_loop now es (newIndex, sess))) \<and>
   Map_wf (snd (rebuild_loop now es (newIndex, sess)))"
proof (induction es arbitrary: newIndex sess)
  case Nil
  then show ?case by simp
next
  case (Cons p es)
  obtain sid sessionData where p: "p = (sid, sessionData)" by (cases p)
  show ?case
    using Cons.IH [of "Map_set (expires sessionData) sid newIndex" sess]
      Cons.IH [of newIndex "Map_delete sid sess"] Cons.prems
    by (simp add: p Map_wf_Map_set Map_wf_Map_delete)
qed

lemma MemoryStore_wf_new: "MemoryStore_wf (MemoryStore_new options)"
  by (simp add: MemoryStore_wf_def MemoryStore_new_def Map_wf_def)

lemma MemoryStore_wf_destroy: "MemoryStore_wf st \<Longrightarrow> MemoryStore_wf (MemoryStore_destroy sid st)"
  by (simp add: MemoryStore_wf_def MemoryStore_destroy_def Map_wf_Map_delete split: option.split)

lemma MemoryStore_wf_step: "MemoryStore_wf st \<Longrightarrow> MemoryStore_wf (MemoryStore_step x st)"
proof -
  assume wf: "MemoryStore_wf st"
  obtain now op where x: "x = (now, op)" by (cases x)
  show ?thesis
  proof (cases op)
    case (Set sid session)
    then show ?thesis
      using wf by (simp add: x MemoryStore_wf_def MemoryStore_set_def Let_def Map_wf_Map_set)
  next
    case (Touch sid session)
    then show ?thesis
      using wf
      by (simp add: x MemoryStore_wf_def MemoryStore_touch_def Let_def Map_wf_Map_set
            Map_wf_Map_delete split: option.split)
  next
    case (Get sid)
    then show ?thesis
      using wf MemoryStore_wf_destroy [OF wf, of sid]
      by (simp add: x MemoryStore_get_def split: option.split)
  next
    case (Destroy sid)
    then show ?thesis
      using MemoryStore_wf_destroy [OF wf] by (simp add: x)
  next
    case All
    then show ?thesis using wf by (simp add: x MemoryStore_all_def)
  next
    case Length
    then show ?thesis using wf by (simp add: x MemoryStore_length_def)
  next
    case Clear
    then show ?thesis by (simp add: x MemoryStore_wf_def MemoryStore_clear_def Map_wf_def)
  next
    case Cleanup
    then show ?thesis
      using wf cleanup_loop_subseq [of now st]
      by (auto simp: x MemoryStore_wf_def cleanupSessions_def intro: subseq_Map_wf)
  next
    case Rebuild
    have "Map_wf ([] :: (int \<times> string) list)"
      by (simp add: Map_wf_def)
    from rebuild_loop_wf [OF this, of "sessions st" now "sessions st"] wf show ?thesis
      by (auto simp: x Rebuild MemoryStore_wf_def rebuildIndex_def split: prod.split)
  qed
qed

lemma MemoryStore_wf_run: "MemoryStore_wf st \<Longrightarrow> MemoryStore_wf (MemoryStore_run xs st)"
  by (induction xs arbitrary: st) (simp_all add: MemoryStore_wf_step)

section \<open>The memory store: the index rebuild loop\<close>

lemma rebuild_loop_index:
  "fst (rebuild_loop now es (newIndex, sess))
     = fold (\<lambda>(sid, sessionData). Map_set (expires sessionData) sid)
         (filter (\<lambda>(sid, sessionData). now < expires sessionData) es) newIndex"
  by (induction es arbitrary: newIndex sess) auto

lemma rebuild_loop_sessions:
  "snd (rebuild_loop now es (newIndex, sess))
     = filter (\<lambda>p. \<not> (\<exists>r. (fst p, r) \<in> set es \<and> expires r \<le> now)) sess"
proof (induction es arbitrary: newIndex sess)
  case Nil
  then show ?case by simp
next
  case (Cons x es)
  obtain sid sessionData where x: "x = (sid, sessionData)" by (cases x)
  show ?case
  proof (cases "now < expires sessionData")
    case True
    then show ?thesis
      using Cons.IH [of "Map_set (expires sessionData) sid newIndex" sess]
      by (auto simp: x intro!: filter_cong)
  next
    case False
    then show ?thesis
      using Cons.IH [of newIndex "Map_delete sid sess"]
      by (auto simp: x Map_delete_filter intro!: filter_cong)
  qed
qed

lemma Map_get_filter_key:
  "Map_get k (filter (\<lambda>p. Q (fst p)) m) = (if Q k then Map_get k m else None)"
  by (induction m) auto

lemma Map_get_fold_Map_set:
  "Map_get e (fold (\<lambda>(sid, sessionData). Map_set (expires sessionData) sid) xs idx)
     = (if ids_expiring_at e xs = [] then Map_get e idx else Some (last (ids_expiring_at e xs)))"
proof (induction xs arbitrary: idx)
  case Nil
  then show ?case by (simp add: ids_expiring_at_def)
next
  case (Cons x xs)
  obtain sid sessionData where x: "x = (sid, sessionData)" by (cases x)
  show ?case
    using Cons.IH [of "Map_set (expires sessionData) sid idx"]
    by (simp add: x Map_get_Map_set ids_expiring_at_def)
qed

lemma rebuildIndex_sessions:
  assumes "Map_wf (sessions st)"
  shows "sessions (rebuildIndex now st)
           = filter (\<lambda>(sid, sessionData). now < expires sessionData) (sessions st)"
proof -
  have "(\<not> (\<exists>r. (fst p, r) \<in> set (sessions st) \<and> expires r \<le> now)) \<longleftrightarrow> now < expires (snd p)"
    if "p \<in> set (sessions st)" for p
  proof -
    have "r = snd p" if "(fst p, r) \<in> set (sessions st)" for r
      using Map_wf_in_set_get [OF assms that] Map_wf_in_set_get [OF assms, of "fst p" "snd p"]
        \<open>p \<in> set (sessions st)\<close> by simp
    then show ?thesis
      using that by (metis not_le prod.collapse)
  qed
  then have "filter (\<lambda>p. \<not> (\<exists>r. (fst p, r) \<in> set (sessions st) \<and> expires r \<le> now)) (sessions st)
      = filter (\<lambda>p. now < expires (snd p)) (sessions st)"
    by (intro filter_cong) auto
  then show ?thesis
    using rebuild_loop_sessions [of now "sessions st" "[]" "sessions st"]
    by (simp add: rebuildIndex_def case_prod_unfold)
qed

lemma rebuildIndex_index:
  assumes "Map_wf (sessions st)"
  shows "Map_get e (expirationIndex (rebuildIndex now st))
           = (if ids_expiring_at e (sessions (rebuildIndex now st)) = [] then None
              else Some (last (ids_expiring_at e (sessions (rebuildIndex now st)))))"
proof -
  have "expirationIndex (rebuildIndex now st)
          = fold (\<lambda>(sid, sessionData). Map_set (expires sessionData) sid)
              (sessions (rebuildIndex now st)) []"
    using rebuild_loop_index [of now "sessions st" "[]" "sessions st"]
    by (simp add: rebuildIndex_sessions [OF assms]) (simp add: rebuildIndex_def case_prod_unfold)
  then show ?thesis
    by (simp add: Map_get_fold_Map_set)
qed


lemma in_ids_expiring_at:
  "sid \<in> set (ids_expiring_at e m) \<longleftrightarrow> (\<exists>r. (sid, r) \<in> set m \<and> expires r = e)"
  by (force simp: ids_expiring_at_def)

lemma rebuildIndex_fresh:
  "expirationIndex (rebuildIndex now (st\<lparr> expirationIndex := anyIndex \<rparr>))
     = expirationIndex (rebuildIndex now st)"
  by (simp add: rebuildIndex_def case_prod_unfold)

text \<open>
  C4 as stated fails: after two records were set in the same millisecond, both are
  live at time 10, and the rebuilt index has the single key 1000 mapped to \<open>s2\<close>;
  there is no entry for \<open>s1\<close>.
\<close>

theorem rebuildIndex_drops_entry_of_live_record:
  "Map_get ''s1'' (sessions (rebuildIndex 10 collided))
     = Some \<lparr> data = [(''a'', 1)], expires = 1000 \<rparr>
   \<and> (10 :: int) < 1000
   \<and> (1000, ''s1'') \<notin> set (expirationIndex (rebuildIndex 10 collided))
   \<and> Map_get 1000 (expirationIndex (rebuildIndex 10 collided)) = Some ''s2''"
  by (simp add: collided_def rebuildIndex_def MemoryStore_defs)

text \<open>
  C4, amended. After a pass of \<open>rebuildIndex\<close> on a store whose primary map has each
  id once: the primary map holds exactly the records with \<open>now < expires\<close>, in their
  old order; the index is built from the primary map alone, whatever the old index
  was; it has each key once; a time is a key of it exactly when a live record
  expires then, and it is mapped to the last such record in map order. So every
  live record finds under its expiration time the id of a live record with that
  expiration time, its own when no other live record shares the time; every index
  entry names a live record that expires at the key; and no id is the value of two
  keys.
\<close>

theorem rebuildIndex_pass:
  assumes "Map_wf (sessions st)"
  shows "(let st' = rebuildIndex now st in
      sessions st' = filter (\<lambda>(sid, sessionData). now < expires sessionData) (sessions st)
    \<and> expirationIndex (rebuildIndex now (st\<lparr> expirationIndex := anyIndex \<rparr>)) = expirationIndex st'
    \<and> Map_wf (expirationIndex st')
    \<and> (\<forall>e. Map_get e (expirationIndex st')
             = (if ids_expiring_at e (sessions st') = [] then None
                else Some (last (ids_expiring_at e (sessions st')))))
    \<and> (\<forall>sid r. Map_get sid (sessions st') = Some r \<longrightarrow>
          (\<exists>sid' r'. Map_get (expires r) (expirationIndex st') = Some sid'
              \<and> Map_get sid' (sessions st') = Some r' \<and> expires r' = expires r))
    \<and> (\<forall>sid r. Map_get sid (sessions st') = Some r
            \<and> (\<forall>sid' r'. Map_get sid' (sessions st') = Some r' \<and> expires r' = expires r
                  \<longrightarrow> sid' = sid)
          \<longrightarrow> Map_get (expires r) (expirationIndex st') = Some sid)
    \<and> (\<forall>e sid. Map_get e (expirationIndex st') = Some sid \<longrightarrow>
          (\<exists>r. Map_get sid (sessions st') = Some r \<and> expires r = e \<and> now < e))
    \<and> (\<forall>e e' sid. Map_get e (expirationIndex st') = Some sid
            \<and> Map_get e' (expirationIndex st') = Some sid \<longrightarrow> e = e'))"
proof -
  define st' where "st' = rebuildIndex now st"
  have sess: "sessions st' = filter (\<lambda>(sid, sessionData). now < expires sessionData) (sessions st)"
    unfolding st'_def by (rule rebuildIndex_sessions [OF assms])
  have wf': "Map_wf (sessions st')"
    using subseq_Map_wf [OF subseq_filter_left assms] by (simp add: sess)
  have wfi: "Map_wf (expirationIndex st')"
  proof -
    have "Map_wf ([] :: (int \<times> string) list)"
      by (simp add: Map_wf_def)
    from rebuild_loop_wf [OF this assms, of now "sessions st"] show ?thesis
      by (simp add: st'_def rebuildIndex_def case_prod_unfold)
  qed
  have idx: "Map_get e (expirationIndex st')
      = (if ids_expiring_at e (sessions st') = [] then None
         else Some (last (ids_expiring_at e (sessions st'))))" for e
    unfolding st'_def by (rule rebuildIndex_index [OF assms])
  have entry: "\<exists>r. Map_get sid (sessions st') = Some r \<and> expires r = e \<and> now < e"
    if "Map_get e (expirationIndex st') = Some sid" for e sid
  proof -
    have "ids_expiring_at e (sessions st') \<noteq> []" and "sid = last (ids_expiring_at e (sessions st'))"
      using that idx [of e] by (simp_all split: if_splits)
    then have "sid \<in> set (ids_expiring_at e (sessions st'))"
      by simp
    then obtain r where r: "(sid, r) \<in> set (sessions st')" "expires r = e"
      by (auto simp: in_ids_expiring_at)
    then have "now < e"
      by (auto simp: sess)
    with r Map_wf_in_set_get [OF wf' r(1)] show ?thesis
      by simp
  qed
  have live: "\<exists>sid' r'. Map_get (expires r) (expirationIndex st') = Some sid'
              \<and> Map_get sid' (sessions st') = Some r' \<and> expires r' = expires r"
    if "Map_get sid (sessions st') = Some r" for sid r
  proof -
    have "sid \<in> set (ids_expiring_at (expires r) (sessions st'))"
      using Map_get_in_set [OF that] by (auto simp: in_ids_expiring_at)
    then have "ids_expiring_at (expires r) (sessions st') \<noteq> []"
      by auto
    then obtain sid' where "Map_get (expires r) (expirationIndex st') = Some sid'"
      using idx [of "expires r"] by simp
    with entry [OF this] show ?thesis
      by auto
  qed
  have own: "Map_get (expires r) (expirationIndex st') = Some sid"
    if "Map_get sid (sessions st') = Some r"
      and "\<forall>sid' r'. Map_get sid' (sessions st') = Some r' \<and> expires r' = expires r \<longrightarrow> sid' = sid"
    for sid r
    using live [OF that(1)] that(2) by auto
  have one: "e = e'"
    if "Map_get e (expirationIndex st') = Some sid" "Map_get e' (expirationIndex st') = Some sid"
    for e e' sid
    using entry [OF that(1)] entry [OF that(2)] by auto
  show ?thesis
    unfolding Let_def st'_def [symmetric]
    using sess wfi idx live own entry one rebuildIndex_fresh [of now anyIndex st]
    by (simp add: st'_def)
qed

theorem rebuildIndex_pass_witness:
  "(let st = MemoryStore_run
               [(0, Set ''s1'' [(''a'', 1 :: int)]), (0, Set ''s2'' [(''b'', 2)]),
                (300, Set ''s1'' [(''a'', 3)]), (600, Set ''s3'' [(''c'', 4)])]
               (MemoryStore_new options_1s);
        st' = rebuildIndex 1100 st in
      Map_wf (sessions st)
    \<and> expirationIndex st = [(1000, ''s2''), (1300, ''s1''), (1600, ''s3'')]
    \<and> sessions st' = [(''s1'', \<lparr> data = [(''a'', 3)], expires = 1300 \<rparr>),
                       (''s3'', \<lparr> data = [(''c'', 4)], expires = 1600 \<rparr>)]
    \<and> Map_get 1300 (expirationIndex st') = Some ''s1''
    \<and> Map_get 1600 (expirationIndex st') = Some ''s3''
    \<and> Map_get 1000 (expirationIndex st') = None)"
proof -
  define st :: "int MemoryStore" where
    "st = MemoryStore_run
            [(0, Set ''s1'' [(''a'', 1)]), (0, Set ''s2'' [(''b'', 2)]),
             (300, Set ''s1'' [(''a'', 3)]), (600, Set ''s3'' [(''c'', 4)])]
            (MemoryStore_new options_1s)"
  have s: "sessions st = [(''s1'', \<lparr> data = [(''a'', 3)], expires = 1300 \<rparr>),
                          (''s2'', \<lparr> data = [(''b'', 2)], expires = 1000 \<rparr>),
                          (''s3'', \<lparr> data = [(''c'', 4)], expires = 1600 \<rparr>)]"
    and i: "expirationIndex st = [(1000, ''s2''), (1300, ''s1''), (1600, ''s3'')]"
    by (simp_all add: st_def MemoryStore_defs)
  have wf: "Map_wf (sessions st)"
    by (simp add: s Map_wf_def)
  have "Map_wf (sessions st)
    \<and> expirationIndex st = [(1000, ''s2''), (1300, ''s1''), (1600, ''s3'')]
    \<and> sessions (rebuildIndex 1100 st)
         = [(''s1'', \<lparr> data = [(''a'', 3)], expires = 1300 \<rparr>),
            (''s3'', \<lparr> data = [(''c'', 4)], expires = 1600 \<rparr>)]
    \<and> Map_get 1300 (expirationIndex (rebuildIndex 1100 st)) = Some ''s1''
    \<and> Map_get 1600 (expirationIndex (rebuildIndex 1100 st)) = Some ''s3''
    \<and> Map_get 1000 (expirationIndex (rebuildIndex 1100 st)) = None"
  proof -
    have kept: "sessions (rebuildIndex 1100 st)
        = filter (\<lambda>(sid, sessionData). 1100 < expires sessionData) (sessions st)"
      and index: "\<And>e. Map_get e (expirationIndex (rebuildIndex 1100 st))
        = (if ids_expiring_at e (sessions (rebuildIndex 1100 st)) = [] then None
           else Some (last (ids_expiring_at e (sessions (rebuildIndex 1100 st)))))"
      using rebuildIndex_pass [OF wf, of 1100 "[]"] unfolding Let_def by blast+
    have "sessions (rebuildIndex 1100 st)
        = [(''s1'', \<lparr> data = [(''a'', 3)], expires = 1300 \<rparr>),
           (''s3'', \<lparr> data = [(''c'', 4)], expires = 1600 \<rparr>)]"
      by (simp add: kept s)
    then show ?thesis
      using wf i by (simp add: index ids_expiring_at_def)
  qed
  then show ?thesis
    unfolding st_def Let_def .
qed

section \<open>The memory store: one id per expiration time\<close>

text \<open>
  C10. The index of a store reached from a new one has each expiration time once.
  When two different ids are set at the same time, both records are stored, the
  index maps their common expiration time to the id set last, and \<open>destroy\<close> of the
  first id, or \<open>get\<close> of the first id at a time after the expiry, removes this
  index key although it names the second id, whose record stays.
\<close>

theorem expirationIndex_one_id_per_timestamp:
  "Map_wf (expirationIndex (MemoryStore_run tr (MemoryStore_new options :: 'v MemoryStore)))
 \<and> (sid1 \<noteq> sid2 \<longrightarrow>
      (let expiresAt = now + maxAge st;
           st2 = fst (MemoryStore_set now sid2 session2 (fst (MemoryStore_set now sid1 session1 st)))
       in Map_get sid1 (sessions st2) = Some \<lparr> data = spread session1, expires = expiresAt \<rparr>
        \<and> Map_get sid2 (sessions st2) = Some \<lparr> data = spread session2, expires = expiresAt \<rparr>
        \<and> Map_get expiresAt (expirationIndex st2) = Some sid2
        \<and> Map_get expiresAt (expirationIndex (MemoryStore_destroy sid1 st2)) = None
        \<and> Map_get sid2 (sessions (MemoryStore_destroy sid1 st2))
            = Some \<lparr> data = spread session2, expires = expiresAt \<rparr>
        \<and> (\<forall>now'. expiresAt < now' \<longrightarrow>
              snd (MemoryStore_get now' sid1 st2) = Absent
            \<and> Map_get expiresAt (expirationIndex (fst (MemoryStore_get now' sid1 st2))) = None
            \<and> Map_get sid2 (sessions (fst (MemoryStore_get now' sid1 st2)))
                = Some \<lparr> data = spread session2, expires = expiresAt \<rparr>)))"
proof -
  have "MemoryStore_wf (MemoryStore_run tr (MemoryStore_new options :: 'v MemoryStore))"
    by (rule MemoryStore_wf_run [OF MemoryStore_wf_new])
  then show ?thesis
    by (simp add: MemoryStore_wf_def MemoryStore_set_def MemoryStore_get_def
          MemoryStore_destroy_def Let_def Map_get_Map_set Map_get_Map_delete)
qed

theorem expirationIndex_one_id_per_timestamp_witness:
  "(let st2 = MemoryStore_run [(0, Set ''s1'' [(''a'', 1 :: int)]), (0, Set ''s2'' [(''b'', 2)])]
                (MemoryStore_new options_1s) in
      Map_wf (expirationIndex st2)
    \<and> ''s1'' \<noteq> ''s2'' \<and> (1000 :: int) < 1001
    \<and> Map_get 1000 (expirationIndex st2) = Some ''s2''
    \<and> Map_get 1000 (expirationIndex (MemoryStore_destroy ''s1'' st2)) = None
    \<and> Map_get ''s2'' (sessions (MemoryStore_destroy ''s1'' st2))
        = Some \<lparr> data = [(''b'', 2)], expires = 1000 \<rparr>
    \<and> snd (MemoryStore_get 1001 ''s1'' st2) = Absent
    \<and> Map_get 1000 (expirationIndex (fst (MemoryStore_get 1001 ''s1'' st2))) = None
    \<and> Map_get ''s2'' (sessions (fst (MemoryStore_get 1001 ''s1'' st2)))
        = Some \<lparr> data = [(''b'', 2)], expires = 1000 \<rparr>)"
proof -
  define st0 :: "int MemoryStore" where "st0 = MemoryStore_new options_1s"
  define st2 where
    "st2 = MemoryStore_run [(0, Set ''s1'' [(''a'', 1 :: int)]), (0, Set ''s2'' [(''b'', 2)])] st0"
  have run: "fst (MemoryStore_set 0 ''s2'' [(''b'', 2)] (fst (MemoryStore_set 0 ''s1'' [(''a'', 1)] st0)))
      = st2"
    by (simp add: st2_def)
  have age: "0 + maxAge st0 = 1000"
    by (simp add: st0_def MemoryStore_defs)
  have sp: "spread [(''b'', 2 :: int)] = [(''b'', 2)]"
    by (simp add: spread_def)
  have ids: "''s1'' \<noteq> ''s2''" and late: "(1000 :: int) < 1001"
    by simp_all
  note claim = expirationIndex_one_id_per_timestamp
      [where tr = "[(0, Set ''s1'' [(''a'', 1 :: int)]), (0, Set ''s2'' [(''b'', 2)])]"
         and options = options_1s and ?sid1.0 = "''s1''" and ?sid2.0 = "''s2''" and now = 0
         and st = st0 and ?session1.0 = "[(''a'', 1)]" and ?session2.0 = "[(''b'', 2)]",
       unfolded Let_def run age sp, folded st0_def, folded st2_def]
  have "Map_wf (expirationIndex st2)
    \<and> ''s1'' \<noteq> ''s2'' \<and> (1000 :: int) < 1001
    \<and> Map_get 1000 (expirationIndex st2) = Some ''s2''
    \<and> Map_get 1000 (expirationIndex (MemoryStore_destroy ''s1'' st2)) = None
    \<and> Map_get ''s2'' (sessions (MemoryStore_destroy ''s1'' st2))
        = Some \<lparr> data = [(''b'', 2)], expires = 1000 \<rparr>
    \<and> snd (MemoryStore_get 1001 ''s1'' st2) = Absent
    \<and> Map_get 1000 (expirationIndex (fst (MemoryStore_get 1001 ''s1'' st2))) = None
    \<and> Map_get ''s2'' (sessions (fst (MemoryStore_get 1001 ''s1'' st2)))
        = Some \<lparr> data = [(''b'', 2)], expires = 1000 \<rparr>"
    using claim ids late by blast
  then show ?thesis
    unfolding st2_def st0_def Let_def .
qed

section \<open>The memory store: expiration times never move back\<close>

lemma cleanup_entry_maxAge: "maxAge (cleanup_entry e sid st) = maxAge st"
  by (simp add: cleanup_entry_def Let_def MemoryStore_destroy_def split: option.split)

lemma cleanup_loop_maxAge: "maxAge (cleanup_loop now st) = maxAge st"
proof (induction st rule: cleanup_loop_cases [where now = now])
  case (Nil st)
  then show ?case by (simp add: cleanup_loop_Nil)
next
  case (stop st e sid rest)
  then show ?case by (simp add: cleanup_loop_stop)
next
  case (step st e sid rest)
  then show ?case
    by (simp add: cleanup_loop_step [of st e sid rest now] cleanup_entry_maxAge)
qed

lemma rebuildIndex_keeps:
  assumes "Map_get sid (sessions (rebuildIndex now st)) = Some r"
  shows "Map_get sid (sessions st) = Some r"
proof -
  have "sessions (rebuildIndex now st)
          = filter (\<lambda>p. \<not> (\<exists>r. (fst p, r) \<in> set (sessions st) \<and> expires r \<le> now)) (sessions st)"
    using rebuild_loop_sessions [of now "sessions st" "[]" "sessions st"]
    by (simp add: rebuildIndex_def case_prod_unfold)
  with assms show ?thesis
    using Map_get_filter_key
      [of sid "\<lambda>k. \<not> (\<exists>r. (k, r) \<in> set (sessions st) \<and> expires r \<le> now)" "sessions st"]
    by (auto split: if_splits)
qed

lemma MemoryStore_step_maxAge: "maxAge (MemoryStore_step x st) = maxAge st"
proof -
  obtain now op where x: "x = (now, op)" by (cases x)
  show ?thesis
    by (cases op)
       (simp_all add: x MemoryStore_defs Let_def cleanupSessions_def cleanup_loop_maxAge
          rebuildIndex_def case_prod_unfold split: option.split)
qed

lemma MemoryStore_step_keeps:
  assumes "Map_get sid (sessions (MemoryStore_step (now, op) st)) = Some r'"
  shows "Map_get sid (sessions st) = Some r'
         \<or> expires r' = now + maxAge st"
proof (cases op)
  case (Set sid0 session)
  then show ?thesis
    using assms by (auto simp: MemoryStore_set_def Let_def Map_get_Map_set split: if_splits)
next
  case (Touch sid0 session)
  then show ?thesis
    using assms
    by (auto simp: MemoryStore_touch_def Let_def Map_get_Map_set split: if_splits option.splits)
next
  case (Get sid0)
  then show ?thesis
    using assms
    by (auto simp: MemoryStore_get_def MemoryStore_destroy_def Map_get_Map_delete
          split: if_splits option.splits)
next
  case (Destroy sid0)
  then show ?thesis
    using assms
    by (auto simp: MemoryStore_destroy_def Map_get_Map_delete split: if_splits option.splits)
next
  case All
  then show ?thesis using assms by (simp add: MemoryStore_all_def)
next
  case Length
  then show ?thesis using assms by (simp add: MemoryStore_length_def)
next
  case Clear
  then show ?thesis using assms by (simp add: MemoryStore_clear_def)
next
  case Cleanup
  then show ?thesis
    using assms cleanup_loop_keeps [of sid now st r'] by (simp add: cleanupSessions_def)
next
  case Rebuild
  then show ?thesis
    using assms rebuildIndex_keeps [of sid now st r'] by simp
qed

lemma expires_bounded_step:
  assumes "expires_bounded t st" and "t \<le> now" and "MemoryStore_wf st"
  shows "expires_bounded now (MemoryStore_step (now, op) st)"
  unfolding expires_bounded_def
proof (intro ballI, clarify)
  fix sid r'
  assume "(sid, r') \<in> set (sessions (MemoryStore_step (now, op) st))"
  moreover have "Map_wf (sessions (MemoryStore_step (now, op) st))"
    using MemoryStore_wf_step [OF assms(3)] by (simp add: MemoryStore_wf_def)
  ultimately have "Map_get sid (sessions (MemoryStore_step (now, op) st)) = Some r'"
    by (simp add: Map_wf_in_set_get)
  from MemoryStore_step_keeps [OF this] show "expires r' \<le> now + maxAge (MemoryStore_step (now, op) st)"
  proof
    assume "Map_get sid (sessions st) = Some r'"
    then have "expires r' \<le> t + maxAge st"
      using assms(1) Map_get_in_set by (fastforce simp: expires_bounded_def)
    then show ?thesis
      using assms(2) by (simp add: MemoryStore_step_maxAge)
  next
    assume "expires r' = now + maxAge st"
    then show ?thesis
      by (simp add: MemoryStore_step_maxAge)
  qed
qed

lemma expires_bounded_run:
  "expires_bounded t st \<Longrightarrow> MemoryStore_wf st \<Longrightarrow> sorted (t # map fst tr @ [now]) \<Longrightarrow>
   expires_bounded now (MemoryStore_run tr st) \<and> maxAge (MemoryStore_run tr st) = maxAge st"
proof (induction tr arbitrary: t st)
  case Nil
  then show ?case
    by (fastforce simp: expires_bounded_def)
next
  case (Cons x tr)
  obtain t' op where x: "x = (t', op)" by (cases x)
  have "expires_bounded t' (MemoryStore_step x st)"
    using expires_bounded_step [OF Cons.prems(1) _ Cons.prems(2), of t' op] Cons.prems(3)
    by (simp add: x)
  moreover have "sorted (t' # map fst tr @ [now])"
    using Cons.prems(3) by (simp add: x)
  ultimately show ?case
    using Cons.IH [of t' "MemoryStore_step x st"] MemoryStore_wf_step [OF Cons.prems(2), of x]
    by (simp add: MemoryStore_step_maxAge)
qed

text \<open>
  C9. Take any sequence of operations run on a new store with clock readings that
  never decrease, and one more operation at a reading that is not earlier. A record
  that is in the store before and after this operation has not got an earlier
  expiration time: the time stays or moves forward, or the record is gone.
\<close>

theorem expires_never_decreases:
  assumes "sorted (map fst (tr @ [(now, op)]))"
    and "st = MemoryStore_run tr (MemoryStore_new options)"
    and "Map_get sid (sessions st) = Some r"
    and "Map_get sid (sessions (MemoryStore_step (now, op) st)) = Some r'"
  shows "expires r \<le> expires r'"
proof -
  define t where "t = (case tr of [] \<Rightarrow> now | x # _ \<Rightarrow> fst x)"
  have ordered: "sorted (t # map fst tr @ [now])"
    using assms(1) by (cases tr) (simp_all add: t_def)
  have fresh: "expires_bounded t (MemoryStore_new options :: 'a MemoryStore)"
    by (simp add: expires_bounded_def MemoryStore_new_def)
  have "expires_bounded now st"
    using expires_bounded_run [OF fresh MemoryStore_wf_new ordered] assms(2) by simp
  then have bound: "expires r \<le> now + maxAge st"
    using Map_get_in_set [OF assms(3)] by (fastforce simp: expires_bounded_def)
  from MemoryStore_step_keeps [OF assms(4)] show ?thesis
    using assms(3) bound by auto
qed

theorem expires_never_decreases_witness:
  "sorted (map fst ([(0 :: int, Set ''s1'' [(''a'', 1 :: int)])] @ [(5, Touch ''s1'' [(''a'', 2)])]))
   \<and> Map_get ''s1'' (sessions (MemoryStore_run [(0, Set ''s1'' [(''a'', 1 :: int)])]
         (MemoryStore_new options_1s))) = Some \<lparr> data = [(''a'', 1)], expires = 1000 \<rparr>
   \<and> Map_get ''s1'' (sessions (MemoryStore_step (5, Touch ''s1'' [(''a'', 2)])
         (MemoryStore_run [(0, Set ''s1'' [(''a'', 1 :: int)])] (MemoryStore_new options_1s))))
       = Some \<lparr> data = [(''a'', 2)], expires = 1005 \<rparr>
   \<and> expires \<lparr> data = [(''a'', 1 :: int)], expires = 1000 \<rparr>
       \<le> expires \<lparr> data = [(''a'', 2 :: int)], expires = 1005 \<rparr>"
proof -
  have ordered: "sorted (map fst ([(0 :: int, Set ''s1'' [(''a'', 1 :: int)])] @ [(5, Touch ''s1'' [(''a'', 2)])]))"
    by simp
  have before: "Map_get ''s1'' (sessions (MemoryStore_run [(0, Set ''s1'' [(''a'', 1 :: int)])]
         (MemoryStore_new options_1s))) = Some \<lparr> data = [(''a'', 1)], expires = 1000 \<rparr>"
    by (simp add: MemoryStore_defs)
  have after: "Map_get ''s1'' (sessions (MemoryStore_step (5, Touch ''s1'' [(''a'', 2)])
         (MemoryStore_run [(0, Set ''s1'' [(''a'', 1 :: int)])] (MemoryStore_new options_1s))))
       = Some \<lparr> data = [(''a'', 2)], expires = 1005 \<rparr>"
    by (simp add: MemoryStore_defs)
  from expires_never_decreases [OF ordered refl before after] ordered before after
  show ?thesis
    by blast
qed

section \<open>The memory store: the order of the expiration index\<close>

text \<open>
  With a clock that never goes back, every operation but \<open>rebuildIndex\<close> keeps the keys
  of the index in ascending order: \<open>set\<close> and \<open>touch\<close> insert the latest time at the
  end or at a key that is already there, the others only delete.
\<close>

lemma sorted_Map_set:
  "sorted (map fst m) \<Longrightarrow> \<forall>e \<in> fst ` set m. e \<le> k \<Longrightarrow> sorted (map fst (Map_set k v m))"
  by (auto simp: keys_Map_set sorted_append)

lemma keys_Map_set_subset: "fst ` set (Map_set k v m) \<subseteq> insert k (fst ` set m)"
proof -
  have "set (map fst (Map_set k v m)) \<subseteq> insert k (set (map fst m))"
    by (auto simp: keys_Map_set)
  then show ?thesis by simp
qed

lemma index_ascending_subseq:
  assumes "index_ascending t st" and "t \<le> now"
    and "subseq (expirationIndex st') (expirationIndex st)" and "maxAge st' = maxAge st"
  shows "index_ascending now st'"
proof -
  have "sorted (map fst (expirationIndex st'))"
    using subseq_sorted [OF subseq_map [OF assms(3), of fst]] assms(1)
    by (auto simp: index_ascending_def)
  moreover have "e \<le> now + maxAge st'" if "e \<in> fst ` set (expirationIndex st')" for e
  proof -
    have "e \<in> fst ` set (expirationIndex st)"
      using that subseq_set [OF assms(3)] by auto
    then have "e \<le> t + maxAge st"
      using assms(1) by (auto simp: index_ascending_def)
    then show ?thesis using assms(2,4) by simp
  qed
  ultimately show ?thesis by (simp add: index_ascending_def)
qed

lemma index_ascending_insert:
  assumes "index_ascending t st" and "t \<le> now"
    and "subseq m (expirationIndex st)"
    and "expirationIndex st' = Map_set (now + maxAge st) sid m" and "maxAge st' = maxAge st"
  shows "index_ascending now st'"
proof -
  have below: "e \<le> now + maxAge st" if "e \<in> fst ` set m" for e
  proof -
    have "e \<in> fst ` set (expirationIndex st)"
      using that subseq_set [OF assms(3)] by auto
    then have "e \<le> t + maxAge st"
      using assms(1) by (auto simp: index_ascending_def)
    then show ?thesis using assms(2) by simp
  qed
  have "sorted (map fst m)"
    using subseq_sorted [OF subseq_map [OF assms(3), of fst]] assms(1)
    by (auto simp: index_ascending_def)
  then have "sorted (map fst (Map_set (now + maxAge st) sid m))"
    using below by (intro sorted_Map_set) auto
  moreover have "e \<le> now + maxAge st" if "e \<in> fst ` set (Map_set (now + maxAge st) sid m)" for e
  proof -
    have "e = now + maxAge st \<or> e \<in> fst ` set m"
      using that keys_Map_set_subset [of "now + maxAge st" sid m] by blast
    then show ?thesis using below by auto
  qed
  ultimately show ?thesis
    using assms(4,5) by (simp add: index_ascending_def)
qed

lemma index_ascending_step:
  assumes "index_ascending t st" and "t \<le> now" and "op \<noteq> Rebuild"
  shows "index_ascending now (MemoryStore_step (now, op) st)"
proof (cases op)
  case (Set sid session)
  show ?thesis
    by (rule index_ascending_insert [OF assms(1,2) subseq_order.refl, of _ sid])
       (simp_all add: Set MemoryStore_set_def Let_def)
next
  case (Touch sid session)
  show ?thesis
  proof (cases "Map_get sid (sessions st)")
    case None
    then show ?thesis
      using index_ascending_subseq [OF assms(1,2), of st] by (simp add: Touch MemoryStore_touch_def)
  next
    case (Some sessionData)
    show ?thesis
      by (rule index_ascending_insert
            [OF assms(1,2) subseq_Map_delete [of "expires sessionData"], of _ sid])
         (simp_all add: Touch Some MemoryStore_touch_def Let_def)
  qed
next
  case (Get sid)
  show ?thesis
    by (rule index_ascending_subseq [OF assms(1,2)])
       (simp_all add: Get MemoryStore_get_def MemoryStore_destroy_def subseq_Map_delete
          split: option.split)
next
  case (Destroy sid)
  show ?thesis
    by (rule index_ascending_subseq [OF assms(1,2)])
       (simp_all add: Destroy MemoryStore_destroy_def subseq_Map_delete split: option.split)
next
  case All
  show ?thesis
    by (rule index_ascending_subseq [OF assms(1,2)]) (simp_all add: All MemoryStore_all_def)
next
  case Length
  show ?thesis
    by (rule index_ascending_subseq [OF assms(1,2)]) (simp_all add: Length MemoryStore_length_def)
next
  case Clear
  show ?thesis
    by (rule index_ascending_subseq [OF assms(1,2)]) (simp_all add: Clear MemoryStore_clear_def)
next
  case Cleanup
  show ?thesis
    by (rule index_ascending_subseq [OF assms(1,2)])
       (simp_all add: Cleanup cleanupSessions_def cleanup_loop_subseq cleanup_loop_maxAge)
next
  case Rebuild
  then show ?thesis using assms(3) by simp
qed

lemma index_ascending_run:
  "index_ascending t st \<Longrightarrow> sorted (t # map fst tr @ [now]) \<Longrightarrow> Rebuild \<notin> snd ` set tr \<Longrightarrow>
   index_ascending now (MemoryStore_run tr st)"
proof (induction tr arbitrary: t st)
  case Nil
  then show ?case
    using index_ascending_subseq [of t st now st] by simp
next
  case (Cons x tr)
  obtain t' op where x: "x = (t', op)" by (cases x)
  have "index_ascending t' (MemoryStore_step x st)"
    using index_ascending_step [OF Cons.prems(1), of t' op] Cons.prems(2,3) by (auto simp: x)
  moreover have "sorted (t' # map fst tr @ [now])" and "Rebuild \<notin> snd ` set tr"
    using Cons.prems(2,3) by (simp_all add: x)
  ultimately show ?case
    using Cons.IH [of t' "MemoryStore_step x st"] by simp
qed

lemma cleanupSessions_without_rebuild:
  assumes "sorted (map fst tr @ [now])" and "Rebuild \<notin> snd ` set tr"
  shows "\<forall>(e, sid) \<in> set (expirationIndex
           (cleanupSessions now (MemoryStore_run tr (MemoryStore_new options)))). now < e"
proof -
  define t where "t = (case tr of [] \<Rightarrow> now | x # _ \<Rightarrow> fst x)"
  have ordered: "sorted (t # map fst tr @ [now])"
    using assms(1) by (cases tr) (simp_all add: t_def)
  have fresh: "index_ascending t (MemoryStore_new options :: 'a MemoryStore)"
    by (simp add: index_ascending_def MemoryStore_new_def)
  have "sorted (map fst (expirationIndex (MemoryStore_run tr (MemoryStore_new options :: 'a MemoryStore))))"
    using index_ascending_run [OF fresh ordered assms(2)] by (simp add: index_ascending_def)
  then show ?thesis
    using cleanupSessions_pass [of now "MemoryStore_run tr (MemoryStore_new options)"]
    by (simp add: Let_def)
qed

lemma drifted_index: "expirationIndex drifted = [(1100, ''s1''), (1050, ''s2'')]"
  by (simp add: drifted_def MemoryStore_defs rebuildIndex_def)

text \<open>
  C1. A pass of \<open>cleanupSessions\<close> is claimed to traverse the index in ascending order
  of expiration time and to leave no entry with \<open>expiresAt \<le> now\<close>. The loop breaks at
  the first entry with \<open>expiresAt > now\<close>, so it needs the ascending order, which all
  operations but one keep (\<open>index_ascending_step\<close>; \<open>cleanupSessions_without_rebuild\<close>
  is the claim for the stores they reach). \<open>rebuildIndex\<close> does not keep it: it inserts
  in the order of the primary map. After \<open>set s1\<close> at 0, \<open>set s2\<close> at 50 and \<open>touch s1\<close>
  at 100 the index is ascending; after \<open>rebuildIndex\<close> at 200 it holds the same
  entries with 1100 before 1050; the pass at 1060 breaks at the first entry, and the
  entry of time 1050 and its record stay.
\<close>

theorem cleanupSessions_leaves_expired_entry:
  "expirationIndex (MemoryStore_run
       [(0, Set ''s1'' [(''a'', 1 :: int)]), (50, Set ''s2'' [(''b'', 2)]),
        (100, Touch ''s1'' [(''a'', 1)])] (MemoryStore_new options_1s))
     = [(1050, ''s2''), (1100, ''s1'')]
   \<and> expirationIndex drifted = [(1100, ''s1''), (1050, ''s2'')]
   \<and> expirationIndex (cleanupSessions 1060 drifted) = [(1100, ''s1''), (1050, ''s2'')]
   \<and> Map_get ''s2'' (sessions (cleanupSessions 1060 drifted))
       = Some \<lparr> data = [(''b'', 2)], expires = 1050 \<rparr>
   \<and> (1050 :: int) \<le> 1060"
proof -
  have stop: "cleanupSessions 1060 drifted = drifted"
    by (simp add: cleanupSessions_def cleanup_loop_stop [of drifted 1100 "''s1''"] drifted_index)
  show ?thesis
    by (simp add: stop drifted_index) (simp add: drifted_def MemoryStore_defs rebuildIndex_def)
qed

section \<open>The file store: the outcomes of \<open>get\<close>\<close>





end
